theory Spec2Isabelle
  imports Main "HOL-Library.Sublist"
begin

section \<open>JavaScript values, errors and callbacks\<close>

text \<open>
  A function value is known by its identity only: \<open>UserFn n\<close> is the \<open>n\<close>-th function
  of the application (its body is looked up in a code table), \<open>UnsubscribeFn h\<close> is the
  closure returned by the \<open>h\<close>-th call of \<open>subscribe\<close>. Equality of \<open>func\<close> is
  JavaScript's reference equality of functions, which is what \<open>indexOf\<close> uses.
\<close>

datatype func = UserFn nat | UnsubscribeFn nat

text \<open>
  The prototype of an object: the generic \<open>Object.prototype\<close>, none
  (\<open>Object.create(null)\<close>), or the prototype of an application-defined class.
\<close>

datatype proto = ObjectProto | NullProto | ClassProto nat

datatype jsval =
    Undefined
  | Null
  | Boolean bool
  | Number int
  | String string
  | Function func
  | Array "jsval list"
  | Object proto "(string \<times> jsval) list"

text \<open>
  Every \<open>throw new Error(...)\<close> of the source is one constructor, named after its message;
  \<open>Thrown v\<close> is an exception raised by application code (a reducer or a listener),
  \<open>NotCallable\<close> the \<open>TypeError\<close> of calling something that is not a function.
\<close>

datatype error =
    ExpectedEnhancerFunction
  | ExpectedReducerFunction
  | ExpectedListenerFunction
  | ExpectedNextReducerFunction
  | ActionsMustBePlainObjects
  | UndefinedActionType
  | ReducersMayNotDispatch
  | GetStateWhileReducing
  | SubscribeWhileReducing
  | UnsubscribeWhileReducing
  | NotCallable
  | Thrown jsval

text \<open>The taxonomy of the specification (section 7) over the errors of the source.\<close>

datatype error_kind = ConfigurationError | InvalidActionError | ReentrancyError | ApplicationError

fun kind_of :: "error \<Rightarrow> error_kind" where
  "kind_of ExpectedEnhancerFunction = ConfigurationError"
| "kind_of ExpectedReducerFunction = ConfigurationError"
| "kind_of ExpectedListenerFunction = ConfigurationError"
| "kind_of ExpectedNextReducerFunction = ConfigurationError"
| "kind_of ActionsMustBePlainObjects = InvalidActionError"
| "kind_of UndefinedActionType = InvalidActionError"
| "kind_of ReducersMayNotDispatch = ReentrancyError"
| "kind_of GetStateWhileReducing = ReentrancyError"
| "kind_of SubscribeWhileReducing = ReentrancyError"
| "kind_of UnsubscribeWhileReducing = ReentrancyError"
| "kind_of NotCallable = ApplicationError"
| "kind_of (Thrown v) = ApplicationError"

text \<open>The outcome of a call: it returns a value or raises an exception.\<close>

datatype outcome = Returned jsval | Raised error

section \<open>compose\<close>

text \<open>
  A JavaScript function applied to an argument list returns or throws. In
  \<open>a(b(...args))\<close> the inner call is evaluated first, and \<open>a\<close> is not called when it throws.
\<close>

type_synonym jsfun = "jsval list \<Rightarrow> outcome"

definition call_with_result :: "jsfun \<Rightarrow> outcome \<Rightarrow> outcome" where
  "call_with_result a r = (case r of Returned v \<Rightarrow> a [v] | Raised e \<Rightarrow> Raised e)"

text \<open>\<open>arg => arg\<close>: the first argument, \<open>undefined\<close> when there is none.\<close>

definition identity_fn :: jsfun where
  "identity_fn args = (case args of [] \<Rightarrow> Returned Undefined | x # _ \<Rightarrow> Returned x)"

text \<open>
  \<open>funcs.reduce((a, b) => (...args) => a(b(...args)))\<close>: \<open>reduce\<close> without an initial value
  starts from the first element and folds the others from the left.
\<close>

fun compose :: "jsfun list \<Rightarrow> jsfun" where
  "compose [] = identity_fn"
| "compose [f] = f"
| "compose (f # g # fs) = foldl (\<lambda>a b. (\<lambda>args. call_with_result a (b args))) f (g # fs)"

section \<open>Callbacks\<close>

text \<open>
  Reducers and listeners are application code. What matters of such a function is how it
  talks to the store, so its body is a tree of store calls: it returns, throws, or calls
  one operation of the store and goes on with the outcome of that call (a \<open>try/catch\<close> is a
  continuation that does not rethrow). \<open>Unsubscribe h\<close> calls the closure returned by the
  \<open>h\<close>-th \<open>subscribe\<close>.
\<close>

datatype call =
    GetState
  | Subscribe jsval
  | Unsubscribe nat
  | Dispatch jsval
  | ReplaceReducer jsval

datatype prog = Return jsval | Throw error | Call call "outcome \<Rightarrow> prog"

text \<open>A call whose exception is not caught.\<close>

definition uncaught :: "call \<Rightarrow> (jsval \<Rightarrow> prog) \<Rightarrow> prog" where
  "uncaught c k = Call c (\<lambda>r. case r of Returned v \<Rightarrow> k v | Raised e \<Rightarrow> Throw e)"

text \<open>
  Modelled from the spec: \<open>utils/actionTypes\<close> is not among the sources. The two reserved
  action kinds are strings (a fixed prefix and a random token); they are parameters here,
  next to the code table that gives each application function its body on an argument list.
\<close>

record program =
  code :: "nat \<Rightarrow> jsval list \<Rightarrow> prog"
  INIT :: string
  REPLACE :: string

definition init_action :: "program \<Rightarrow> jsval" where
  "init_action P = Object ObjectProto [(''type'', String (INIT P))]"

definition replace_action :: "program \<Rightarrow> jsval" where
  "replace_action P = Object ObjectProto [(''type'', String (REPLACE P))]"

text \<open>
  Modelled from the spec: \<open>utils/isPlainObject\<close> is not among the sources. A plain object is
  a key-value record whose prototype is the generic base-object prototype or absent; arrays,
  callables, class instances and primitives are not.
\<close>

fun isPlainObject :: "jsval \<Rightarrow> bool" where
  "isPlainObject (Object ObjectProto fs) = True"
| "isPlainObject (Object NullProto fs) = True"
| "isPlainObject v = False"

text \<open>\<open>action.type\<close>, read on a plain object: an absent key reads as \<open>undefined\<close>.\<close>

fun property :: "jsval \<Rightarrow> string \<Rightarrow> jsval" where
  "property (Object p fs) k = (case map_of fs k of Some v \<Rightarrow> v | None \<Rightarrow> Undefined)"
| "property v k = Undefined"

section \<open>The store\<close>

text \<open>
  The variables closed over by the functions of \<open>createStore\<close>. \<open>currentListeners\<close> and
  \<open>nextListeners\<close> are references: addresses into \<open>arrays\<close>, the listener arrays allocated so
  far (\<open>slice\<close> allocates a new one at the end). \<open>closures\<close> has one entry for every closure
  returned by \<open>subscribe\<close>: its \<open>listener\<close> and its \<open>isSubscribed\<close> flag.
  The \<open>observable\<close> accessor only combines \<open>getState\<close> and \<open>subscribe\<close> and is left out.
\<close>

record store =
  currentReducer :: func
  currentState :: jsval
  currentListeners :: nat
  nextListeners :: nat
  isDispatching :: bool
  arrays :: "func list list"
  closures :: "(func \<times> bool) list"

definition array_at :: "store \<Rightarrow> nat \<Rightarrow> func list" where
  "array_at s a = (if a < length (arrays s) then arrays s ! a else [])"

definition ensureCanMutateNextListeners :: "store \<Rightarrow> store" where
  "ensureCanMutateNextListeners s =
     (if nextListeners s = currentListeners s
      then s\<lparr>nextListeners := length (arrays s),
             arrays := arrays s @ [array_at s (currentListeners s)]\<rparr>
      else s)"

definition getState :: "store \<Rightarrow> outcome" where
  "getState s = (if isDispatching s then Raised GetStateWhileReducing
                 else Returned (currentState s))"

text \<open>\<open>xs.indexOf(x)\<close>: the first position of \<open>x\<close>, \<open>-1\<close> when there is none.\<close>

fun indexOf :: "func list \<Rightarrow> func \<Rightarrow> int" where
  "indexOf [] x = -1"
| "indexOf (y # ys) x =
     (if y = x then 0 else (let r = indexOf ys x in if r < 0 then -1 else r + 1))"

text \<open>
  \<open>xs.splice(index, 1)\<close>: a negative index counts from the end (and not below 0), an index
  beyond the end is the end; one element is removed from there when there is one.
\<close>

definition splice1 :: "func list \<Rightarrow> int \<Rightarrow> func list" where
  "splice1 xs index =
     (let start = (if index < 0 then nat (max (int (length xs) + index) 0)
                   else min (nat index) (length xs))
      in take start xs @ drop (Suc start) xs)"

definition subscribe :: "jsval \<Rightarrow> store \<Rightarrow> outcome \<times> store" where
  "subscribe listener s =
     (case listener of
        Function l \<Rightarrow>
          if isDispatching s then (Raised SubscribeWhileReducing, s)
          else
            let s1 = ensureCanMutateNextListeners s;
                s2 = s1\<lparr>arrays := (arrays s1)[nextListeners s1 :=
                                     array_at s1 (nextListeners s1) @ [l]],
                        closures := closures s1 @ [(l, True)]\<rparr>
            in (Returned (Function (UnsubscribeFn (length (closures s)))), s2)
      | _ \<Rightarrow> (Raised ExpectedListenerFunction, s))"

text \<open>
  The closure returned by the \<open>h\<close>-th \<open>subscribe\<close>. A closure that was never created cannot
  be called: that is \<open>NotCallable\<close>.
\<close>

definition unsubscribe :: "nat \<Rightarrow> store \<Rightarrow> outcome \<times> store" where
  "unsubscribe h s =
     (if length (closures s) \<le> h then (Raised NotCallable, s)
      else
        let listener = fst (closures s ! h); isSubscribed = snd (closures s ! h) in
        if \<not> isSubscribed then (Returned Undefined, s)
        else if isDispatching s then (Raised UnsubscribeWhileReducing, s)
        else
          let s1 = ensureCanMutateNextListeners (s\<lparr>closures := (closures s)[h := (listener, False)]\<rparr>);
              index = indexOf (array_at s1 (nextListeners s1)) listener
          in (Returned Undefined,
              s1\<lparr>arrays := (arrays s1)[nextListeners s1 :=
                                splice1 (array_at s1 (nextListeners s1)) index]\<rparr>))"

text \<open>
  \<open>dispatch\<close> can call itself through a listener, without bound, so it takes fuel: the
  nested \<open>dispatch\<close> is a parameter \<open>D\<close> of everything below, and \<open>None\<close> is "out of fuel".
  Next to its outcome and the new store, \<open>dispatch\<close> reports the listeners that its own
  notification pass has invoked, in order (an observation, not a value of the program).
\<close>

type_synonym dispatcher = "jsval \<Rightarrow> store \<Rightarrow> (outcome \<times> store \<times> func list) option"

definition replaceReducer :: "dispatcher \<Rightarrow> program \<Rightarrow> jsval \<Rightarrow> store \<Rightarrow> (outcome \<times> store) option" where
  "replaceReducer D P nextReducer s =
     (case nextReducer of
        Function f \<Rightarrow>
          (case D (replace_action P) (s\<lparr>currentReducer := f\<rparr>) of
             None \<Rightarrow> None
           | Some (Raised e, s', ns) \<Rightarrow> Some (Raised e, s')
           | Some (Returned v, s', ns) \<Rightarrow> Some (Returned Undefined, s'))
      | _ \<Rightarrow> Some (Raised ExpectedNextReducerFunction, s))"

definition api :: "dispatcher \<Rightarrow> program \<Rightarrow> call \<Rightarrow> store \<Rightarrow> (outcome \<times> store) option" where
  "api D P c s =
     (case c of
        GetState \<Rightarrow> Some (getState s, s)
      | Subscribe listener \<Rightarrow> Some (subscribe listener s)
      | Unsubscribe h \<Rightarrow> Some (unsubscribe h s)
      | Dispatch action \<Rightarrow>
          (case D action s of None \<Rightarrow> None | Some (r, s', ns) \<Rightarrow> Some (r, s'))
      | ReplaceReducer nextReducer \<Rightarrow> replaceReducer D P nextReducer s)"

primrec run :: "dispatcher \<Rightarrow> program \<Rightarrow> prog \<Rightarrow> store \<Rightarrow> (outcome \<times> store) option" where
  "run D P (Return v) s = Some (Returned v, s)"
| "run D P (Throw e) s = Some (Raised e, s)"
| "run D P (Call c k) s =
     (case api D P c s of None \<Rightarrow> None | Some (r, s') \<Rightarrow> run D P (k r) s')"

text \<open>\<open>f(...args)\<close> for a function value \<open>f\<close>.\<close>

definition invoke :: "dispatcher \<Rightarrow> program \<Rightarrow> func \<Rightarrow> jsval list \<Rightarrow> store \<Rightarrow> (outcome \<times> store) option" where
  "invoke D P f args s =
     (case f of
        UserFn n \<Rightarrow> run D P (code P n args) s
      | UnsubscribeFn h \<Rightarrow> Some (unsubscribe h s))"

text \<open>
  \<open>for (let i = 0; i < listeners.length; i++) { const listener = listeners[i]; listener() }\<close>
  where \<open>listeners\<close> is a reference to the array at address \<open>a\<close>: its length and its
  elements are read from the store at every round. A listener that throws ends the loop.
  The first argument is the fuel of the loop.
\<close>

primrec notify :: "nat \<Rightarrow> dispatcher \<Rightarrow> program \<Rightarrow> nat \<Rightarrow> nat \<Rightarrow> store \<Rightarrow> (outcome \<times> store \<times> func list) option" where
  "notify 0 D P a i s =
     (if i < length (array_at s a) then None else Some (Returned Undefined, s, []))"
| "notify (Suc m) D P a i s =
     (if i < length (array_at s a) then
        (let listener = array_at s a ! i in
         case invoke D P listener [] s of
           None \<Rightarrow> None
         | Some (Raised e, s') \<Rightarrow> Some (Raised e, s', [listener])
         | Some (Returned v, s') \<Rightarrow>
             (case notify m D P a (Suc i) s' of
                None \<Rightarrow> None
              | Some (r, s'', ns) \<Rightarrow> Some (r, s'', listener # ns)))
      else Some (Returned Undefined, s, []))"

definition dispatch_body :: "nat \<Rightarrow> dispatcher \<Rightarrow> program \<Rightarrow> jsval \<Rightarrow> store \<Rightarrow> (outcome \<times> store \<times> func list) option" where
  "dispatch_body m D P action s =
     (if \<not> isPlainObject action then Some (Raised ActionsMustBePlainObjects, s, [])
      else if property action ''type'' = Undefined then Some (Raised UndefinedActionType, s, [])
      else if isDispatching s then Some (Raised ReducersMayNotDispatch, s, [])
      else
        (case invoke D P (currentReducer s) [currentState s, action] (s\<lparr>isDispatching := True\<rparr>) of
           None \<Rightarrow> None
         | Some (Raised e, s1) \<Rightarrow> Some (Raised e, s1\<lparr>isDispatching := False\<rparr>, [])
         | Some (Returned v, s1) \<Rightarrow>
             (let s2 = s1\<lparr>currentState := v, isDispatching := False\<rparr>;
                  s3 = s2\<lparr>currentListeners := nextListeners s2\<rparr>
              in case notify m D P (nextListeners s2) 0 s3 of
                   None \<Rightarrow> None
                 | Some (Raised e, s4, ns) \<Rightarrow> Some (Raised e, s4, ns)
                 | Some (Returned u, s4, ns) \<Rightarrow> Some (Returned action, s4, ns))))"

primrec dispatch :: "nat \<Rightarrow> program \<Rightarrow> dispatcher" where
  "dispatch 0 P = (\<lambda>action s. None)"
| "dispatch (Suc n) P = dispatch_body n (dispatch n P) P"

text \<open>
  \<open>createStore\<close> returns the store, throws, or hands the construction over to the enhancer
  (\<open>enhancer(createStore)(reducer, preloadedState)\<close>, which is application code and is not
  followed further).
\<close>

datatype creation = Created store | Failed error | Delegated jsval jsval jsval

definition is_function :: "jsval \<Rightarrow> bool" where
  "is_function v = (case v of Function f \<Rightarrow> True | _ \<Rightarrow> False)"

definition createStore :: "nat \<Rightarrow> program \<Rightarrow> jsval \<Rightarrow> jsval \<Rightarrow> jsval \<Rightarrow> creation option" where
  "createStore n P reducer preloadedState0 enhancer0 =
     (let shift = (is_function preloadedState0 \<and> enhancer0 = Undefined);
          enhancer = (if shift then preloadedState0 else enhancer0);
          preloadedState = (if shift then Undefined else preloadedState0)
      in
      if enhancer \<noteq> Undefined then
        (if \<not> is_function enhancer then Some (Failed ExpectedEnhancerFunction)
         else Some (Delegated enhancer reducer preloadedState))
      else
        (case reducer of
           Function r \<Rightarrow>
             (case dispatch n P (init_action P)
                     \<lparr>currentReducer = r, currentState = preloadedState,
                      currentListeners = 0, nextListeners = 0, isDispatching = False,
                      arrays = [[]], closures = []\<rparr> of
                None \<Rightarrow> None
              | Some (Raised e, s, ns) \<Rightarrow> Some (Failed e)
              | Some (Returned v, s, ns) \<Rightarrow> Some (Created s))
         | _ \<Rightarrow> Some (Failed ExpectedReducerFunction)))"

text \<open>Dispatching a list of actions, one after the other; the first exception ends it.\<close>

fun dispatch_all :: "nat \<Rightarrow> program \<Rightarrow> jsval list \<Rightarrow> store \<Rightarrow> (outcome \<times> store) option" where
  "dispatch_all n P [] s = Some (Returned Undefined, s)"
| "dispatch_all n P (a # as) s =
     (case dispatch n P a s of
        None \<Rightarrow> None
      | Some (Raised e, s', ns) \<Rightarrow> Some (Raised e, s')
      | Some (Returned v, s', ns) \<Rightarrow> dispatch_all n P as s')"

section \<open>Invariants of the store\<close>

text \<open>
  The references of a store are well formed: \<open>nextListeners\<close> is an allocated array and
  \<open>currentListeners\<close> is not younger than it (\<open>currentListeners\<close> is only ever assigned
  from \<open>nextListeners\<close>, and \<open>nextListeners\<close> only ever from a fresh copy).
\<close>

definition well_formed :: "store \<Rightarrow> bool" where
  "well_formed s \<longleftrightarrow>
     currentListeners s \<le> nextListeners s \<and> nextListeners s < length (arrays s)"

text \<open>
  An array that no operation writes any more: the store only writes the array of
  \<open>nextListeners\<close>, and only when this is not the array of \<open>currentListeners\<close>.
\<close>

definition frozen :: "nat \<Rightarrow> store \<Rightarrow> bool" where
  "frozen a s \<longleftrightarrow>
     a < length (arrays s) \<and> (a \<noteq> nextListeners s \<or> nextListeners s = currentListeners s)"

definition same_but_reducer :: "store \<Rightarrow> store \<Rightarrow> bool" where
  "same_but_reducer s s' \<longleftrightarrow>
     currentState s' = currentState s \<and> currentListeners s' = currentListeners s
     \<and> nextListeners s' = nextListeners s \<and> isDispatching s' = isDispatching s
     \<and> arrays s' = arrays s \<and> closures s' = closures s"

definition copy_on_write :: "store \<Rightarrow> store \<Rightarrow> bool" where
  "copy_on_write s s' \<longleftrightarrow>
     well_formed s'
     \<and> currentListeners s \<le> currentListeners s' \<and> nextListeners s \<le> nextListeners s'
     \<and> (\<forall>a. frozen a s \<longrightarrow> frozen a s' \<and> arrays s' ! a = arrays s ! a)"

text \<open>
  What every operation of the store does to it, whatever the callbacks do: the guard is
  as it was on return; while the guard is set nothing but \<open>currentReducer\<close> changes; and
  the listener arrays are handled copy-on-write.
\<close>

definition evolves :: "store \<Rightarrow> store \<Rightarrow> bool" where
  "evolves s s' \<longleftrightarrow>
     isDispatching s' = isDispatching s
     \<and> (isDispatching s \<longrightarrow> same_but_reducer s s')
     \<and> (well_formed s \<longrightarrow> copy_on_write s s')"

definition sound :: "dispatcher \<Rightarrow> bool" where
  "sound D \<longleftrightarrow> (\<forall>a s r s' ns. D a s = Some (r, s', ns) \<longrightarrow> evolves s s')"

text \<open>
  The store between the two halves of \<open>dispatch\<close>: the reducer has returned \<open>v\<close>, the guard
  is released and \<open>currentListeners = nextListeners\<close> has been assigned.
\<close>

definition after_reducer :: "jsval \<Rightarrow> store \<Rightarrow> store" where
  "after_reducer v s1 =
     s1\<lparr>currentState := v, isDispatching := False, currentListeners := nextListeners s1\<rparr>"

text \<open>
  A callback is quiet when it never calls \<open>dispatch\<close> or \<open>replaceReducer\<close>, whatever the store
  answers to its calls.
\<close>

primrec quiet :: "prog \<Rightarrow> bool" where
  "quiet (Return v) = True"
| "quiet (Throw e) = True"
| "quiet (Call c k) =
     ((case c of Dispatch a \<Rightarrow> False | ReplaceReducer f \<Rightarrow> False | _ \<Rightarrow> True) \<and> (\<forall>r. quiet (k r)))"

text \<open>
  A callback that returns whatever happens: it is quiet, catches the exception of every call it
  makes, and never throws itself.
\<close>

primrec returning :: "prog \<Rightarrow> bool" where
  "returning (Return v) = True"
| "returning (Throw e) = False"
| "returning (Call c k) =
     ((case c of Dispatch a \<Rightarrow> False | ReplaceReducer f \<Rightarrow> False | _ \<Rightarrow> True)
      \<and> (\<forall>r. returning (k r)))"



section \<open>Example programs\<close>

text \<open>\<open>arguments[i]\<close>: a missing argument is \<open>undefined\<close>.\<close>

definition arg :: "jsval list \<Rightarrow> nat \<Rightarrow> jsval" where
  "arg args i = (if i < length args then args ! i else Undefined)"

text \<open>
  The reducer of the specification's scenario, on a state that is a number or \<open>undefined\<close>:
  \<open>count(state = 0, action) => action.type === "INC" ? state + 1 : state\<close>.
\<close>

definition count :: "jsval \<Rightarrow> jsval \<Rightarrow> jsval" where
  "count state action =
     (let n = (case state of Number k \<Rightarrow> k | _ \<Rightarrow> 0) in
      if property action ''type'' = String ''INC'' then Number (n + 1) else Number n)"

definition counter_program :: program where
  "counter_program =
     \<lparr>code = (\<lambda>n args. Return (count (arg args 0) (arg args 1))),
      INIT = ''@@redux/INIT'', REPLACE = ''@@redux/REPLACE''\<rparr>"

definition inc :: jsval where
  "inc = Object ObjectProto [(''type'', String ''INC'')]"

definition boom :: jsval where
  "boom = Object ObjectProto [(''type'', String ''BOOM'')]"

definition probe :: jsval where
  "probe = Object ObjectProto [(''type'', String ''PROBE'')]"

text \<open>
  A reducer that throws on \<open>BOOM\<close>, calls the first unsubscribe closure on \<open>PROBE\<close> (without
  catching its exception) and counts otherwise.
\<close>

definition demo_reducer :: "jsval \<Rightarrow> jsval \<Rightarrow> prog" where
  "demo_reducer state action =
     (if property action ''type'' = String ''BOOM'' then Throw (Thrown (String ''boom''))
      else if property action ''type'' = String ''PROBE''
      then uncaught (Unsubscribe 0) (\<lambda>v. Return (String ''unsubscribe returned''))
      else Return (count state action))"

text \<open>
  Function 0 is that reducer, function 1 a listener that unsubscribes itself (it is the first
  to subscribe), function 2 a listener that subscribes function 3, which does nothing.
\<close>

definition demo :: program where
  "demo =
     \<lparr>code = (\<lambda>n args.
         if n = 0 then demo_reducer (arg args 0) (arg args 1)
         else if n = 1 then uncaught (Unsubscribe 0) (\<lambda>v. Return Undefined)
         else if n = 2 then uncaught (Subscribe (Function (UserFn 3))) (\<lambda>v. Return Undefined)
         else Return Undefined),
      INIT = ''@@redux/INIT'', REPLACE = ''@@redux/REPLACE''\<rparr>"

text \<open>
  The same listeners with a plain counter as reducer, and every exception caught: no function
  of this program throws.
\<close>

definition calm :: program where
  "calm =
     \<lparr>code = (\<lambda>n args.
         if n = 0 then Return (count (arg args 0) (arg args 1))
         else if n = 1 then Call (Unsubscribe 0) (\<lambda>r. Return Undefined)
         else if n = 2 then Call (Subscribe (Function (UserFn 3))) (\<lambda>r. Return Undefined)
         else Return Undefined),
      INIT = ''@@redux/INIT'', REPLACE = ''@@redux/REPLACE''\<rparr>"

text \<open>An idle store of \<open>demo\<close>, by its state, its two references, its arrays and its closures.\<close>

definition demo_store :: "jsval \<Rightarrow> nat \<Rightarrow> nat \<Rightarrow> func list list \<Rightarrow> (func \<times> bool) list \<Rightarrow> store" where
  "demo_store v c n as cs =
     \<lparr>currentReducer = UserFn 0, currentState = v, currentListeners = c, nextListeners = n,
      isDispatching = False, arrays = as, closures = cs\<rparr>"

section \<open>Every operation evolves the store\<close>

lemma same_but_reducer_refl: "same_but_reducer s s"
  by (simp add: same_but_reducer_def)

lemma same_but_reducer_trans:
  "same_but_reducer s s' \<Longrightarrow> same_but_reducer s' s'' \<Longrightarrow> same_but_reducer s s''"
  by (simp add: same_but_reducer_def)

lemma copy_on_write_refl: "well_formed s \<Longrightarrow> copy_on_write s s"
  by (simp add: copy_on_write_def)

lemma copy_on_write_trans:
  "copy_on_write s s' \<Longrightarrow> copy_on_write s' s'' \<Longrightarrow> copy_on_write s s''"
  by (simp add: copy_on_write_def)

lemma copy_on_write_well_formed: "copy_on_write s s' \<Longrightarrow> well_formed s'"
  by (simp add: copy_on_write_def)

lemma evolves_refl: "evolves s s"
  by (simp add: evolves_def same_but_reducer_refl copy_on_write_refl)

lemma evolves_trans:
  assumes "evolves s s'" and "evolves s' s''"
  shows "evolves s s''"
proof -
  have g: "isDispatching s'' = isDispatching s"
    using assms by (simp add: evolves_def)
  have l: "same_but_reducer s s''" if "isDispatching s"
  proof -
    have 1: "same_but_reducer s s'" and 2: "isDispatching s'"
      using assms(1) that by (simp_all add: evolves_def)
    have 3: "same_but_reducer s' s''"
      using assms(2) 2 by (simp add: evolves_def)
    show ?thesis using 1 3 by (rule same_but_reducer_trans)
  qed
  have c: "copy_on_write s s''" if "well_formed s"
  proof -
    have 1: "copy_on_write s s'"
      using assms(1) that by (simp add: evolves_def)
    have 3: "copy_on_write s' s''"
      using assms(2) copy_on_write_well_formed [OF 1] by (simp add: evolves_def)
    show ?thesis using 1 3 by (rule copy_on_write_trans)
  qed
  show ?thesis using g l c by (simp add: evolves_def)
qed

lemma evolves_idle_fields:
  assumes "\<not> isDispatching s" and "\<not> isDispatching s'"
    and "well_formed s \<Longrightarrow> well_formed s'"
    and "well_formed s \<Longrightarrow> currentListeners s \<le> currentListeners s'"
    and "well_formed s \<Longrightarrow> nextListeners s \<le> nextListeners s'"
    and "\<And>a. well_formed s \<Longrightarrow> frozen a s \<Longrightarrow> frozen a s' \<and> arrays s' ! a = arrays s ! a"
  shows "evolves s s'"
  using assms by (simp add: evolves_def copy_on_write_def)

lemma evolves_reducer: "evolves s (s\<lparr>currentReducer := f\<rparr>)"
  by (simp add: evolves_def well_formed_def frozen_def same_but_reducer_def copy_on_write_def)

subsection \<open>ensureCanMutateNextListeners, subscribe and unsubscribe\<close>

lemma ensure_aliased:
  "nextListeners s = currentListeners s \<Longrightarrow>
   ensureCanMutateNextListeners s =
     s\<lparr>nextListeners := length (arrays s),
       arrays := arrays s @ [array_at s (currentListeners s)]\<rparr>"
  by (simp add: ensureCanMutateNextListeners_def)

lemma ensure_distinct:
  "nextListeners s \<noteq> currentListeners s \<Longrightarrow> ensureCanMutateNextListeners s = s"
  by (simp add: ensureCanMutateNextListeners_def)

lemma ensure_fields:
  "isDispatching (ensureCanMutateNextListeners s) = isDispatching s"
  "currentState (ensureCanMutateNextListeners s) = currentState s"
  "currentReducer (ensureCanMutateNextListeners s) = currentReducer s"
  "currentListeners (ensureCanMutateNextListeners s) = currentListeners s"
  "closures (ensureCanMutateNextListeners s) = closures s"
  by (simp_all add: ensureCanMutateNextListeners_def)

lemma ensure_well_formed:
  "well_formed s \<Longrightarrow> well_formed (ensureCanMutateNextListeners s)"
  by (cases "nextListeners s = currentListeners s")
     (simp_all add: ensure_aliased ensure_distinct well_formed_def)

lemma ensure_frozen:
  "well_formed s \<Longrightarrow> frozen a s \<Longrightarrow>
   frozen a (ensureCanMutateNextListeners s)
   \<and> arrays (ensureCanMutateNextListeners s) ! a = arrays s ! a"
  by (cases "nextListeners s = currentListeners s")
     (simp_all add: ensure_aliased ensure_distinct well_formed_def frozen_def nth_append)

lemma ensure_not_aliased:
  "well_formed s \<Longrightarrow>
   nextListeners (ensureCanMutateNextListeners s) \<noteq> currentListeners (ensureCanMutateNextListeners s)"
  by (cases "nextListeners s = currentListeners s")
     (simp_all add: ensure_aliased ensure_distinct well_formed_def)

lemma ensure_next_mono:
  "well_formed s \<Longrightarrow> nextListeners s \<le> nextListeners (ensureCanMutateNextListeners s)"
  by (cases "nextListeners s = currentListeners s")
     (simp_all add: ensure_aliased ensure_distinct well_formed_def)

lemma ensure_evolves:
  assumes "\<not> isDispatching s"
  shows "evolves s (ensureCanMutateNextListeners s)"
  using assms
  by (intro evolves_idle_fields)
     (simp_all add: ensure_fields ensure_well_formed ensure_frozen ensure_next_mono)

lemma mutate_next_evolves:
  assumes idle: "\<not> isDispatching s"
  defines "e \<equiv> ensureCanMutateNextListeners s"
  shows "evolves s (e\<lparr>arrays := (arrays e)[nextListeners e := xs], closures := cs\<rparr>)"
proof (rule evolves_idle_fields)
  show "\<not> isDispatching s" by fact
  show "\<not> isDispatching (e\<lparr>arrays := (arrays e)[nextListeners e := xs], closures := cs\<rparr>)"
    using idle by (simp add: e_def ensure_fields)
  show "well_formed (e\<lparr>arrays := (arrays e)[nextListeners e := xs], closures := cs\<rparr>)"
    if "well_formed s"
    using ensure_well_formed [OF that] by (simp add: e_def well_formed_def)
  show "currentListeners s \<le> currentListeners (e\<lparr>arrays := (arrays e)[nextListeners e := xs], closures := cs\<rparr>)"
    by (simp add: e_def ensure_fields)
  show "nextListeners s \<le> nextListeners (e\<lparr>arrays := (arrays e)[nextListeners e := xs], closures := cs\<rparr>)"
    if "well_formed s"
    using ensure_next_mono [OF that] by (simp add: e_def)
  show "frozen a (e\<lparr>arrays := (arrays e)[nextListeners e := xs], closures := cs\<rparr>)
        \<and> arrays (e\<lparr>arrays := (arrays e)[nextListeners e := xs], closures := cs\<rparr>) ! a = arrays s ! a"
    if wf: "well_formed s" and fr: "frozen a s" for a
  proof -
    have 1: "frozen a e" and 2: "arrays e ! a = arrays s ! a"
      using ensure_frozen [OF wf fr] by (simp_all add: e_def)
    have 3: "nextListeners e \<noteq> currentListeners e"
      using ensure_not_aliased [OF wf] by (simp add: e_def)
    have 4: "a \<noteq> nextListeners e" using 1 3 by (auto simp add: frozen_def)
    show ?thesis using 1 2 4 by (simp add: frozen_def)
  qed
qed

lemma subscribe_locked: "isDispatching s \<Longrightarrow> snd (subscribe v s) = s"
  by (cases v) (simp_all add: subscribe_def)

lemma subscribe_not_function: "\<not> is_function v \<Longrightarrow> subscribe v s = (Raised ExpectedListenerFunction, s)"
  by (cases v) (simp_all add: subscribe_def is_function_def)

lemma subscribe_idle:
  "\<not> isDispatching s \<Longrightarrow>
   subscribe (Function l) s =
     (Returned (Function (UnsubscribeFn (length (closures s)))),
      (ensureCanMutateNextListeners s)
        \<lparr>arrays := (arrays (ensureCanMutateNextListeners s))
            [nextListeners (ensureCanMutateNextListeners s) :=
               array_at (ensureCanMutateNextListeners s) (nextListeners (ensureCanMutateNextListeners s)) @ [l]],
         closures := closures (ensureCanMutateNextListeners s) @ [(l, True)]\<rparr>)"
  by (simp add: subscribe_def Let_def)

lemma subscribe_evolves: "evolves s (snd (subscribe v s))"
proof (cases "isDispatching s \<or> \<not> is_function v")
  case True
  then show ?thesis
    by (auto simp add: subscribe_locked subscribe_not_function evolves_refl)
next
  case False
  then obtain l where v: "v = Function l" by (cases v) (simp_all add: is_function_def)
  have idle: "\<not> isDispatching s" using False by simp
  show ?thesis
    unfolding v subscribe_idle [OF idle] snd_conv by (rule mutate_next_evolves [OF idle])
qed

lemma unsubscribe_unknown:
  "length (closures s) \<le> h \<Longrightarrow> unsubscribe h s = (Raised NotCallable, s)"
  by (simp add: unsubscribe_def)

lemma unsubscribe_used:
  "h < length (closures s) \<Longrightarrow> \<not> snd (closures s ! h) \<Longrightarrow>
   unsubscribe h s = (Returned Undefined, s)"
  by (simp add: unsubscribe_def)

lemma unsubscribe_locked:
  "h < length (closures s) \<Longrightarrow> snd (closures s ! h) \<Longrightarrow> isDispatching s \<Longrightarrow>
   unsubscribe h s = (Raised UnsubscribeWhileReducing, s)"
  by (simp add: unsubscribe_def)

lemma unsubscribe_idle:
  "h < length (closures s) \<Longrightarrow> snd (closures s ! h) \<Longrightarrow> \<not> isDispatching s \<Longrightarrow>
   unsubscribe h s =
     (let l = fst (closures s ! h);
          e = ensureCanMutateNextListeners (s\<lparr>closures := (closures s)[h := (l, False)]\<rparr>)
      in (Returned Undefined,
          e\<lparr>arrays := (arrays e)[nextListeners e :=
                 splice1 (array_at e (nextListeners e)) (indexOf (array_at e (nextListeners e)) l)]\<rparr>))"
  by (simp add: unsubscribe_def Let_def)

lemma evolves_closures: "\<not> isDispatching s \<Longrightarrow> evolves s (s\<lparr>closures := cs\<rparr>)"
  by (rule evolves_idle_fields) (simp_all add: well_formed_def frozen_def)

lemma unsubscribe_evolves: "evolves s (snd (unsubscribe h s))"
proof -
  consider (unknown) "length (closures s) \<le> h"
    | (used) "h < length (closures s)" "\<not> snd (closures s ! h)"
    | (locked) "h < length (closures s)" "snd (closures s ! h)" "isDispatching s"
    | (idle) "h < length (closures s)" "snd (closures s ! h)" "\<not> isDispatching s"
    by linarith
  then show ?thesis
  proof cases
    case unknown
    then show ?thesis by (simp add: unsubscribe_unknown evolves_refl)
  next
    case used
    then show ?thesis by (simp add: unsubscribe_used evolves_refl)
  next
    case locked
    then show ?thesis by (simp add: unsubscribe_locked evolves_refl)
  next
    case idle
    let ?c = "s\<lparr>closures := (closures s)[h := (fst (closures s ! h), False)]\<rparr>"
    let ?e = "ensureCanMutateNextListeners ?c"
    have 1: "evolves s ?c" using idle(3) by (rule evolves_closures)
    have c: "\<not> isDispatching ?c" using idle(3) by simp
    have 2: "evolves ?c (?e\<lparr>arrays := (arrays ?e)[nextListeners ?e := xs], closures := closures ?e\<rparr>)" for xs
      by (rule mutate_next_evolves [OF c])
    have 3: "?e\<lparr>arrays := X, closures := closures ?e\<rparr> = ?e\<lparr>arrays := X\<rparr>" for X
      by simp
    show ?thesis
      unfolding unsubscribe_idle [OF idle] Let_def snd_conv
      using evolves_trans [OF 1 2] unfolding 3 .
  qed
qed

subsection \<open>Callbacks and dispatch\<close>

lemma soundD: "sound D \<Longrightarrow> D a s = Some (r, s', ns) \<Longrightarrow> evolves s s'"
  unfolding sound_def by blast

lemma replaceReducer_evolves:
  assumes "sound D" and "replaceReducer D P v s = Some (r, s')"
  shows "evolves s s'"
proof (cases "is_function v")
  case False
  then have "replaceReducer D P v s = Some (Raised ExpectedNextReducerFunction, s)"
    by (cases v) (simp_all add: replaceReducer_def is_function_def)
  then show ?thesis using assms(2) by (simp add: evolves_refl)
next
  case True
  then obtain f where v: "v = Function f" by (cases v) (simp_all add: is_function_def)
  obtain r0 ns where d: "D (replace_action P) (s\<lparr>currentReducer := f\<rparr>) = Some (r0, s', ns)"
    using assms(2) unfolding v replaceReducer_def
    by (auto split: option.splits outcome.splits)
  show ?thesis
    using evolves_reducer soundD [OF assms(1) d] by (rule evolves_trans)
qed

lemma api_evolves:
  assumes "sound D" and "api D P c s = Some (r, s')"
  shows "evolves s s'"
proof (cases c)
  case GetState
  then show ?thesis using assms(2) by (simp add: api_def evolves_refl)
next
  case (Subscribe v)
  then have "s' = snd (subscribe v s)" using assms(2) by (auto simp add: api_def)
  then show ?thesis by (simp add: subscribe_evolves)
next
  case (Unsubscribe h)
  then have "s' = snd (unsubscribe h s)" using assms(2) by (auto simp add: api_def)
  then show ?thesis by (simp add: unsubscribe_evolves)
next
  case (Dispatch a)
  then obtain ns where "D a s = Some (r, s', ns)"
    using assms(2) by (auto simp add: api_def split: option.splits)
  then show ?thesis using assms(1) by (simp add: soundD)
next
  case (ReplaceReducer v)
  then show ?thesis using assms by (simp add: api_def replaceReducer_evolves)
qed

lemma run_evolves:
  assumes "sound D"
  shows "run D P p s = Some (r, s') \<Longrightarrow> evolves s s'"
proof (induction p arbitrary: s)
  case (Return v)
  then show ?case by (simp add: evolves_refl)
next
  case (Throw e)
  then show ?case by (simp add: evolves_refl)
next
  case (Call c k)
  from Call.prems obtain r1 s1 where a: "api D P c s = Some (r1, s1)"
    and b: "run D P (k r1) s1 = Some (r, s')"
    by (auto split: option.splits)
  have "evolves s s1" using assms a by (rule api_evolves)
  moreover have "evolves s1 s'" using b by (rule Call.IH [OF rangeI])
  ultimately show ?case by (rule evolves_trans)
qed

lemma invoke_evolves:
  assumes "sound D" and "invoke D P f args s = Some (r, s')"
  shows "evolves s s'"
proof (cases f)
  case (UserFn n)
  then show ?thesis using assms by (simp add: invoke_def run_evolves)
next
  case (UnsubscribeFn h)
  then have "s' = snd (unsubscribe h s)" using assms(2) by (auto simp add: invoke_def)
  then show ?thesis by (simp add: unsubscribe_evolves)
qed

lemma notify_evolves:
  assumes "sound D"
  shows "notify m D P a i s = Some (r, s', ns) \<Longrightarrow> evolves s s'"
proof (induction m arbitrary: i s r s' ns)
  case 0
  then show ?case by (simp add: evolves_refl split: if_splits)
next
  case (Suc m)
  show ?case
  proof (cases "i < length (array_at s a)")
    case False
    then show ?thesis using Suc.prems by (simp add: evolves_refl)
  next
    case True
    from Suc.prems True obtain r1 s1 where
      inv: "invoke D P (array_at s a ! i) [] s = Some (r1, s1)"
      by (auto simp add: Let_def split: option.splits)
    have e1: "evolves s s1" using assms inv by (rule invoke_evolves)
    show ?thesis
    proof (cases r1)
      case (Raised e)
      then have "s' = s1" using Suc.prems True inv by (simp add: Let_def)
      then show ?thesis using e1 by simp
    next
      case (Returned v)
      then obtain ns' where "notify m D P a (Suc i) s1 = Some (r, s', ns')"
        using Suc.prems True inv by (auto simp add: Let_def split: option.splits)
      then have "evolves s1 s'" by (rule Suc.IH)
      with e1 show ?thesis by (rule evolves_trans)
    qed
  qed
qed

lemma dispatch_body_not_plain:
  "\<not> isPlainObject a \<Longrightarrow>
   dispatch_body m D P a s = Some (Raised ActionsMustBePlainObjects, s, [])"
  by (simp add: dispatch_body_def)

lemma dispatch_body_no_type:
  "isPlainObject a \<Longrightarrow> property a ''type'' = Undefined \<Longrightarrow>
   dispatch_body m D P a s = Some (Raised UndefinedActionType, s, [])"
  by (simp add: dispatch_body_def)

lemma dispatch_body_locked:
  "isPlainObject a \<Longrightarrow> property a ''type'' \<noteq> Undefined \<Longrightarrow> isDispatching s \<Longrightarrow>
   dispatch_body m D P a s = Some (Raised ReducersMayNotDispatch, s, [])"
  by (simp add: dispatch_body_def)

lemma dispatch_body_idle:
  "isPlainObject a \<Longrightarrow> property a ''type'' \<noteq> Undefined \<Longrightarrow> \<not> isDispatching s \<Longrightarrow>
   dispatch_body m D P a s =
     (case invoke D P (currentReducer s) [currentState s, a] (s\<lparr>isDispatching := True\<rparr>) of
        None \<Rightarrow> None
      | Some (Raised e, s1) \<Rightarrow> Some (Raised e, s1\<lparr>isDispatching := False\<rparr>, [])
      | Some (Returned v, s1) \<Rightarrow>
          (case notify m D P (nextListeners s1) 0 (after_reducer v s1) of
             None \<Rightarrow> None
           | Some (Raised e, s4, ns) \<Rightarrow> Some (Raised e, s4, ns)
           | Some (Returned u, s4, ns) \<Rightarrow> Some (Returned a, s4, ns)))"
  by (simp add: dispatch_body_def after_reducer_def Let_def split: option.split outcome.split prod.split)

text \<open>while the reducer runs, nothing but \<open>currentReducer\<close> changes\<close>

lemma reducer_phase:
  assumes "sound D"
    and "invoke D P f args (s\<lparr>isDispatching := True\<rparr>) = Some (r1, s1)"
  shows "same_but_reducer (s\<lparr>isDispatching := True\<rparr>) s1"
  using invoke_evolves [OF assms] by (simp add: evolves_def)

lemma unlock_evolves:
  assumes "\<not> isDispatching s" and "same_but_reducer (s\<lparr>isDispatching := True\<rparr>) s1"
  shows "evolves s (s1\<lparr>isDispatching := False\<rparr>)"
  using assms
  by (intro evolves_idle_fields) (simp_all add: same_but_reducer_def well_formed_def frozen_def)

lemma after_reducer_evolves:
  assumes "\<not> isDispatching s" and "same_but_reducer (s\<lparr>isDispatching := True\<rparr>) s1"
  shows "evolves s (after_reducer v s1)"
  using assms
  by (intro evolves_idle_fields)
     (simp_all add: same_but_reducer_def well_formed_def frozen_def after_reducer_def)

lemma dispatch_body_evolves:
  assumes D: "sound D" and d: "dispatch_body m D P a s = Some (r, s', ns)"
  shows "evolves s s'"
proof -
  consider (bad) "\<not> isPlainObject a \<or> property a ''type'' = Undefined \<or> isDispatching s"
    | (ok) "isPlainObject a" "property a ''type'' \<noteq> Undefined" "\<not> isDispatching s"
    by blast
  then show ?thesis
  proof cases
    case bad
    then have "s' = s"
      using d dispatch_body_not_plain [of a m D P s] dispatch_body_no_type [of a m D P s]
        dispatch_body_locked [of a s m D P]
      by auto
    then show ?thesis by (simp add: evolves_refl)
  next
    case ok
    note eq = d [unfolded dispatch_body_idle [OF ok]]
    from eq obtain r1 s1 where
      inv: "invoke D P (currentReducer s) [currentState s, a] (s\<lparr>isDispatching := True\<rparr>) = Some (r1, s1)"
      by (auto split: option.splits)
    have same: "same_but_reducer (s\<lparr>isDispatching := True\<rparr>) s1"
      using D inv by (rule reducer_phase)
    show ?thesis
    proof (cases r1)
      case (Raised e)
      then have "s' = s1\<lparr>isDispatching := False\<rparr>" using eq inv by simp
      then show ?thesis using unlock_evolves [OF ok(3) same] by simp
    next
      case (Returned v)
      then obtain r4 where "notify m D P (nextListeners s1) 0 (after_reducer v s1) = Some (r4, s', ns)"
        using eq inv by (auto split: option.splits outcome.splits)
      then have "evolves (after_reducer v s1) s'" using D by (simp add: notify_evolves)
      with after_reducer_evolves [OF ok(3) same] show ?thesis by (rule evolves_trans)
    qed
  qed
qed

lemma dispatch_sound: "sound (dispatch n P)"
proof (induction n)
  case 0
  show ?case by (simp add: sound_def)
next
  case (Suc n)
  show ?case
    unfolding sound_def dispatch.simps
    using dispatch_body_evolves [OF Suc] by blast
qed

subsection \<open>What dispatch does\<close>

lemma dispatch_evolves: "dispatch n P a s = Some (r, s', ns) \<Longrightarrow> evolves s s'"
  using dispatch_sound [of n P] by (rule soundD)

lemma dispatch_reducer_throws:
  assumes "isPlainObject a" and "property a ''type'' \<noteq> Undefined" and "\<not> isDispatching s"
    and "invoke (dispatch n P) P (currentReducer s) [currentState s, a] (s\<lparr>isDispatching := True\<rparr>)
           = Some (Raised e, s1)"
  shows "dispatch (Suc n) P a s = Some (Raised e, s1\<lparr>isDispatching := False\<rparr>, [])"
    and "same_but_reducer (s\<lparr>isDispatching := True\<rparr>) s1"
  using assms dispatch_body_idle [OF assms(1-3), of n "dispatch n P" P]
    reducer_phase [OF dispatch_sound assms(4)]
  by simp_all

lemma subscribe_function_locked:
  "isDispatching s \<Longrightarrow> subscribe (Function l) s = (Raised SubscribeWhileReducing, s)"
  by (simp add: subscribe_def)

lemma notify_empty:
  "array_at s a = [] \<Longrightarrow> notify m D P a i s = Some (Returned Undefined, s, [])"
  by (cases m) simp_all

lemma array_at_after_reducer [simp]: "array_at (after_reducer v s1) a = array_at s1 a"
  by (simp add: array_at_def after_reducer_def)

lemma array_at_same:
  "same_but_reducer s s1 \<Longrightarrow> array_at s1 a = array_at s a"
  by (simp add: array_at_def same_but_reducer_def)

lemma array_at_lock [simp]: "array_at (s\<lparr>isDispatching := b\<rparr>) a = array_at s a"
  by (simp add: array_at_def)

lemma dispatch_no_listeners:
  assumes ok: "isPlainObject a" "property a ''type'' \<noteq> Undefined" "\<not> isDispatching s"
    and red: "invoke (dispatch n P) P (currentReducer s) [currentState s, a] (s\<lparr>isDispatching := True\<rparr>)
           = Some (Returned v, s1)"
    and none: "array_at s (nextListeners s) = []"
  shows "dispatch (Suc n) P a s = Some (Returned a, after_reducer v s1, [])"
proof -
  have same: "same_but_reducer (s\<lparr>isDispatching := True\<rparr>) s1"
    using dispatch_sound red by (rule reducer_phase)
  then have "nextListeners s1 = nextListeners s" by (simp add: same_but_reducer_def)
  moreover have "array_at s1 (nextListeners s) = []"
    using array_at_same [OF same] none by simp
  ultimately have "notify n (dispatch n P) P (nextListeners s1) 0 (after_reducer v s1)
      = Some (Returned Undefined, after_reducer v s1, [])"
    by (simp add: notify_empty)
  then show ?thesis
    using dispatch_body_idle [OF ok, of n "dispatch n P" P] red by simp
qed

text \<open>a pure reducer\<close>

lemma dispatch_pure:
  assumes pure: "\<forall>st a. code P rid [st, a] = Return (r st a)"
    and ok: "isPlainObject a" "property a ''type'' \<noteq> Undefined" "\<not> isDispatching s"
    and red: "currentReducer s = UserFn rid"
    and none: "array_at s (nextListeners s) = []"
  shows "dispatch (Suc n) P a s
         = Some (Returned a, after_reducer (r (currentState s) a) (s\<lparr>isDispatching := True\<rparr>), [])"
proof -
  have "invoke (dispatch n P) P (currentReducer s) [currentState s, a] (s\<lparr>isDispatching := True\<rparr>)
        = Some (Returned (r (currentState s) a), s\<lparr>isDispatching := True\<rparr>)"
    using pure red by (simp add: invoke_def)
  with ok show ?thesis using none by (rule dispatch_no_listeners)
qed

lemma dispatch_all_pure:
  assumes pure: "\<forall>st a. code P rid [st, a] = Return (r st a)"
  shows "\<forall>a \<in> set as. isPlainObject a \<and> property a ''type'' \<noteq> Undefined \<Longrightarrow>
     \<not> isDispatching s \<Longrightarrow> currentReducer s = UserFn rid \<Longrightarrow>
     array_at s (nextListeners s) = [] \<Longrightarrow>
     \<exists>s'. dispatch_all (Suc n) P as s = Some (Returned Undefined, s')
          \<and> getState s' = Returned (foldl r (currentState s) as)"
proof (induction as arbitrary: s)
  case Nil
  then show ?case by (simp add: getState_def)
next
  case (Cons a as)
  let ?s1 = "after_reducer (r (currentState s) a) (s\<lparr>isDispatching := True\<rparr>)"
  have d: "dispatch (Suc n) P a s = Some (Returned a, ?s1, [])"
    using pure Cons.prems by (intro dispatch_pure) simp_all
  have "\<exists>s'. dispatch_all (Suc n) P as ?s1 = Some (Returned Undefined, s')
          \<and> getState s' = Returned (foldl r (currentState ?s1) as)"
  proof (rule Cons.IH)
    show "\<forall>a \<in> set as. isPlainObject a \<and> property a ''type'' \<noteq> Undefined"
      using Cons.prems(1) by simp
    show "\<not> isDispatching ?s1" by (simp add: after_reducer_def)
    show "currentReducer ?s1 = UserFn rid" using Cons.prems(3) by (simp add: after_reducer_def)
    show "array_at ?s1 (nextListeners ?s1) = []"
      using Cons.prems(4) by (simp add: after_reducer_def array_at_def split: if_splits)
  qed
  moreover have "currentState ?s1 = r (currentState s) a" by (simp add: after_reducer_def)
  ultimately show ?case using d by simp
qed

subsection \<open>The snapshot of a notification pass\<close>





subsection \<open>The listener arrays after subscribe and unsubscribe\<close>

lemma indexOf_bounds: "- 1 \<le> indexOf xs l \<and> indexOf xs l < int (length xs)"
  by (induction xs) (auto simp add: Let_def)

lemma indexOf_absent: "l \<notin> set xs \<Longrightarrow> indexOf xs l = - 1"
  by (induction xs) (auto simp add: Let_def)

lemma indexOf_present: "l \<in> set xs \<Longrightarrow> 0 \<le> indexOf xs l"
  by (induction xs) (auto simp add: Let_def)

lemma splice1_nonneg:
  "0 \<le> i \<Longrightarrow> splice1 xs i = take (nat i) xs @ drop (Suc (nat i)) xs"
  by (cases "nat i \<le> length xs") (simp_all add: splice1_def Let_def min_def)

lemma splice1_indexOf_present:
  "l \<in> set xs \<Longrightarrow> splice1 xs (indexOf xs l) = remove1 l xs"
proof (induction xs)
  case Nil
  then show ?case by simp
next
  case (Cons y ys)
  show ?case
  proof (cases "y = l")
    case True
    then show ?thesis by (simp add: splice1_def)
  next
    case False
    then have m: "l \<in> set ys" using Cons.prems by simp
    have nn: "0 \<le> indexOf ys l" using m by (rule indexOf_present)
    have "indexOf (y # ys) l = indexOf ys l + 1" using False nn by (simp add: Let_def)
    moreover have "nat (indexOf ys l + 1) = Suc (nat (indexOf ys l))" using nn by simp
    ultimately have "splice1 (y # ys) (indexOf (y # ys) l) = y # splice1 ys (indexOf ys l)"
      using nn by (simp add: splice1_nonneg)
    then show ?thesis using False Cons.IH [OF m] by simp
  qed
qed

lemma splice1_minus_one: "splice1 xs (- 1) = butlast xs"
proof (cases xs rule: rev_cases)
  case Nil
  then show ?thesis by (simp add: splice1_def)
next
  case (snoc ys y)
  then show ?thesis by (simp add: splice1_def Let_def)
qed

lemma splice1_indexOf:
  "splice1 xs (indexOf xs l) = (if l \<in> set xs then remove1 l xs else butlast xs)"
  by (simp add: splice1_indexOf_present indexOf_absent splice1_minus_one)

lemma ensure_array:
  "well_formed s \<Longrightarrow>
   array_at (ensureCanMutateNextListeners s) (nextListeners (ensureCanMutateNextListeners s))
     = array_at s (nextListeners s)"
  by (cases "nextListeners s = currentListeners s")
     (simp_all add: ensure_aliased ensure_distinct array_at_def)

lemma ensure_current_array:
  "well_formed s \<Longrightarrow>
   array_at (ensureCanMutateNextListeners s) (currentListeners s) = array_at s (currentListeners s)"
  by (cases "nextListeners s = currentListeners s")
     (simp_all add: ensure_aliased ensure_distinct array_at_def well_formed_def nth_append)

lemma ensure_next_allocated:
  "well_formed s \<Longrightarrow>
   nextListeners (ensureCanMutateNextListeners s) < length (arrays (ensureCanMutateNextListeners s))"
  using ensure_well_formed [of s] by (simp add: well_formed_def)

text \<open>writing the staging array of a store that is ready for it\<close>

lemma write_staging:
  fixes xs :: "func list"
  assumes "nextListeners e < length (arrays e)" and "nextListeners e \<noteq> currentListeners e"
  defines "s' \<equiv> e\<lparr>arrays := (arrays e)[nextListeners e := xs]\<rparr>"
  shows "array_at s' (nextListeners s') = xs"
    and "array_at s' (currentListeners s') = array_at e (currentListeners e)"
    and "nextListeners s' \<noteq> currentListeners s'"
    and "currentListeners s' = currentListeners e"
  using assms by (simp_all add: array_at_def)

lemma subscribe_staging:
  fixes l :: func
  assumes wf: "well_formed s" and idle: "\<not> isDispatching s"
  defines "s' \<equiv> snd (subscribe (Function l) s)"
  shows "array_at s' (nextListeners s') = array_at s (nextListeners s) @ [l]"
    and "array_at s' (currentListeners s') = array_at s (currentListeners s)"
    and "nextListeners s' \<noteq> currentListeners s'"
    and "currentListeners s' = currentListeners s"
proof -
  let ?e = "ensureCanMutateNextListeners s"
  let ?xs = "array_at ?e (nextListeners ?e) @ [l]"
  let ?w = "?e\<lparr>arrays := (arrays ?e)[nextListeners ?e := ?xs]\<rparr>"
  have s': "s' = ?w\<lparr>closures := closures ?e @ [(l, True)]\<rparr>"
    using idle by (simp add: s'_def subscribe_idle)
  note w = write_staging [OF ensure_next_allocated [OF wf] ensure_not_aliased [OF wf], of ?xs]
  have f: "nextListeners s' = nextListeners ?w" "currentListeners s' = currentListeners ?w"
    "array_at s' a = array_at ?w a" for a
    by (simp_all add: s' array_at_def)
  show "array_at s' (nextListeners s') = array_at s (nextListeners s) @ [l]"
    using w(1) ensure_array [OF wf] by (simp add: f)
  show "array_at s' (currentListeners s') = array_at s (currentListeners s)"
    using w(2) ensure_current_array [OF wf] by (simp add: f ensure_fields)
  show "nextListeners s' \<noteq> currentListeners s'" using w(3) by (simp add: f)
  show "currentListeners s' = currentListeners s" using w(4) by (simp add: f ensure_fields)
qed

lemma unsubscribe_staging:
  assumes wf: "well_formed s" and idle: "\<not> isDispatching s"
    and h: "h < length (closures s)" "snd (closures s ! h)"
  defines "s' \<equiv> snd (unsubscribe h s)"
    and "l \<equiv> fst (closures s ! h)"
  shows "array_at s' (nextListeners s')
           = (if l \<in> set (array_at s (nextListeners s)) then remove1 l (array_at s (nextListeners s))
              else butlast (array_at s (nextListeners s)))"
    and "array_at s' (currentListeners s') = array_at s (currentListeners s)"
    and "nextListeners s' \<noteq> currentListeners s'"
    and "currentListeners s' = currentListeners s"
proof -
  let ?c = "s\<lparr>closures := (closures s)[h := (l, False)]\<rparr>"
  let ?e = "ensureCanMutateNextListeners ?c"
  let ?xs = "splice1 (array_at ?e (nextListeners ?e)) (indexOf (array_at ?e (nextListeners ?e)) l)"
  have wfc: "well_formed ?c" using wf by (simp add: well_formed_def)
  have c: "array_at ?c a = array_at s a" "nextListeners ?c = nextListeners s"
    "currentListeners ?c = currentListeners s" for a
    by (simp_all add: array_at_def)
  have s': "s' = ?e\<lparr>arrays := (arrays ?e)[nextListeners ?e := ?xs]\<rparr>"
    using idle h by (simp add: s'_def l_def unsubscribe_idle Let_def)
  note w = write_staging [OF ensure_next_allocated [OF wfc] ensure_not_aliased [OF wfc], of ?xs]
  have st: "array_at ?e (nextListeners ?e) = array_at s (nextListeners s)"
    using ensure_array [OF wfc] by (simp add: c)
  have "array_at s' (nextListeners s') = ?xs" unfolding s' by (rule w(1))
  also have "?xs = (if l \<in> set (array_at s (nextListeners s))
                   then remove1 l (array_at s (nextListeners s))
                   else butlast (array_at s (nextListeners s)))"
    unfolding st by (rule splice1_indexOf)
  finally show "array_at s' (nextListeners s')
           = (if l \<in> set (array_at s (nextListeners s)) then remove1 l (array_at s (nextListeners s))
              else butlast (array_at s (nextListeners s)))" .
  have "array_at s' (currentListeners s') = array_at ?e (currentListeners ?e)"
    unfolding s' by (rule w(2))
  also have "\<dots> = array_at s (currentListeners s)"
    using ensure_current_array [OF wfc] by (simp add: c ensure_fields)
  finally show "array_at s' (currentListeners s') = array_at s (currentListeners s)" .
  show "nextListeners s' \<noteq> currentListeners s'" unfolding s' by (rule w(3))
  have "currentListeners s' = currentListeners ?e" unfolding s' by (rule w(4))
  then show "currentListeners s' = currentListeners s" by (simp add: ensure_fields)
qed

subsection \<open>The two references\<close>

lemmas demo_defs = demo_def demo_store_def demo_reducer_def count_def arg_def inc_def boom_def
  probe_def uncaught_def init_action_def replace_action_def counter_program_def

lemmas eval_defs = createStore_def is_function_def dispatch_body_def invoke_def api_def
  subscribe_def unsubscribe_def getState_def ensureCanMutateNextListeners_def array_at_def
  splice1_def Let_def well_formed_def

lemma dispatch_empty_state:
  assumes none: "array_at s (nextListeners s) = []"
    and d: "dispatch n P a s = Some (Returned v, s', ns)"
  shows "currentListeners s' = nextListeners s' \<and> nextListeners s' = nextListeners s"
proof (cases n)
  case 0
  then show ?thesis using d by simp
next
  case (Suc m)
  let ?D = "dispatch m P"
  have b: "dispatch_body m ?D P a s = Some (Returned v, s', ns)" using d Suc by simp
  have ok: "isPlainObject a" "property a ''type'' \<noteq> Undefined" "\<not> isDispatching s"
    using b dispatch_body_not_plain [of a m ?D P s] dispatch_body_no_type [of a m ?D P s]
      dispatch_body_locked [of a s m ?D P]
    by auto
  note eq = b [unfolded dispatch_body_idle [OF ok]]
  from eq obtain r1 s1 where
    inv: "invoke ?D P (currentReducer s) [currentState s, a] (s\<lparr>isDispatching := True\<rparr>) = Some (r1, s1)"
    by (auto split: option.splits)
  from eq inv obtain u where r1: "r1 = Returned u" by (cases r1) auto
  have same: "same_but_reducer (s\<lparr>isDispatching := True\<rparr>) s1"
    using dispatch_sound inv by (rule reducer_phase)
  have "dispatch (Suc m) P a s = Some (Returned a, after_reducer u s1, [])"
    using ok inv [unfolded r1] none by (rule dispatch_no_listeners)
  then have "s' = after_reducer u s1" using d Suc by simp
  then show ?thesis using same by (simp add: after_reducer_def same_but_reducer_def)
qed

lemma dispatch_realiases:
  assumes wf: "well_formed s" and d: "dispatch n P a s = Some (Returned v, s', ns)"
    and nx: "nextListeners s' = nextListeners s"
  shows "currentListeners s' = nextListeners s'"
proof (cases n)
  case 0
  then show ?thesis using d by simp
next
  case (Suc m)
  let ?D = "dispatch m P"
  have b: "dispatch_body m ?D P a s = Some (Returned v, s', ns)" using d Suc by simp
  have ok: "isPlainObject a" "property a ''type'' \<noteq> Undefined" "\<not> isDispatching s"
    using b dispatch_body_not_plain [of a m ?D P s] dispatch_body_no_type [of a m ?D P s]
      dispatch_body_locked [of a s m ?D P]
    by auto
  note eq = b [unfolded dispatch_body_idle [OF ok]]
  from eq obtain r1 s1 where
    inv: "invoke ?D P (currentReducer s) [currentState s, a] (s\<lparr>isDispatching := True\<rparr>) = Some (r1, s1)"
    by (auto split: option.splits)
  from eq inv obtain u where r1: "r1 = Returned u" by (cases r1) auto
  have same: "same_but_reducer (s\<lparr>isDispatching := True\<rparr>) s1"
    using dispatch_sound inv by (rule reducer_phase)
  let ?s3 = "after_reducer u s1"
  from eq inv r1 obtain r4 where
    n: "notify m ?D P (nextListeners s1) 0 ?s3 = Some (r4, s', ns)"
    by (auto split: option.splits outcome.splits)
  have wf3: "well_formed ?s3"
    using wf same by (simp add: well_formed_def after_reducer_def same_but_reducer_def)
  have "evolves ?s3 s'" using dispatch_sound n by (rule notify_evolves)
  then have c: "copy_on_write ?s3 s'" using wf3 by (simp add: evolves_def)
  have "currentListeners ?s3 \<le> currentListeners s'" and "currentListeners s' \<le> nextListeners s'"
    using c by (simp_all add: copy_on_write_def well_formed_def)
  moreover have "currentListeners ?s3 = nextListeners s"
    using same by (simp add: after_reducer_def same_but_reducer_def)
  ultimately show ?thesis using nx by simp
qed

lemma createStore_dispatch:
  assumes "createStore n P reducer preloadedState enhancer = Some (Created s0)"
  shows "\<exists>r i v ns. dispatch n P (init_action P)
            \<lparr>currentReducer = r, currentState = i, currentListeners = 0, nextListeners = 0,
             isDispatching = False, arrays = [[]], closures = []\<rparr> = Some (Returned v, s0, ns)"
  using assms
  by (fastforce simp add: createStore_def Let_def
      split: if_splits jsval.splits option.splits outcome.splits)

subsection \<open>Termination\<close>






lemma returning_quiet: "returning p \<Longrightarrow> quiet p"
  by (induction p) simp_all






lemma calm_returning: "\<forall>k args. returning (code calm k args)"
  by (simp add: calm_def)

subsection \<open>Fuel\<close>










section \<open>Theorems\<close>

text \<open>
  C1. For every pure reducer \<open>r\<close> (the body of function \<open>rid\<close> returns \<open>r state action\<close>),
  every preloaded state that is not a function (a function in that place is taken for the
  enhancer) and every list of well-formed actions: \<open>createStore\<close> without an enhancer
  returns a store whose state is \<open>r preloadedState INIT\<close>, dispatching the actions in order
  returns every time, and \<open>getState()\<close> is then the left fold of \<open>r\<close> over that initial state
  and the actions. One unit of fuel is enough, since nothing dispatches from the inside.
\<close>

theorem dispatch_sequence_is_fold:
  assumes pure: "\<forall>st a. code P rid [st, a] = Return (r st a)"
    and pre: "\<not> is_function preloadedState"
    and ok: "\<forall>a \<in> set as. isPlainObject a \<and> property a ''type'' \<noteq> Undefined"
  shows "\<exists>s0 s'. createStore (Suc n) P (Function (UserFn rid)) preloadedState Undefined
                   = Some (Created s0)
            \<and> getState s0 = Returned (r preloadedState (init_action P))
            \<and> dispatch_all (Suc n) P as s0 = Some (Returned Undefined, s')
            \<and> getState s' = Returned (foldl r (r preloadedState (init_action P)) as)"
proof -
  let ?i = "\<lparr>currentReducer = UserFn rid, currentState = preloadedState,
             currentListeners = 0, nextListeners = 0, isDispatching = False,
             arrays = [[]], closures = []\<rparr>"
  let ?s0 = "after_reducer (r preloadedState (init_action P)) (?i\<lparr>isDispatching := True\<rparr>)"
  have "dispatch (Suc n) P (init_action P) ?i
        = Some (Returned (init_action P),
                after_reducer (r (currentState ?i) (init_action P)) (?i\<lparr>isDispatching := True\<rparr>), [])"
    using pure by (intro dispatch_pure) (simp_all add: init_action_def array_at_def)
  then have c: "createStore (Suc n) P (Function (UserFn rid)) preloadedState Undefined
                = Some (Created ?s0)"
    using pre by (simp add: createStore_def)
  have "\<exists>s'. dispatch_all (Suc n) P as ?s0 = Some (Returned Undefined, s')
          \<and> getState s' = Returned (foldl r (currentState ?s0) as)"
    using pure ok by (intro dispatch_all_pure) (simp_all add: after_reducer_def array_at_def)
  moreover have "currentState ?s0 = r preloadedState (init_action P)"
    by (simp add: after_reducer_def)
  moreover have "getState ?s0 = Returned (r preloadedState (init_action P))"
    by (simp add: after_reducer_def getState_def)
  ultimately show ?thesis using c by auto
qed

text \<open>
  The scenario of the specification: the counter, no preloaded state, \<open>INC\<close> three times:
  the state is 0 after construction and 3 at the end.
\<close>

theorem dispatch_sequence_is_fold_witness:
  "\<exists>s0 s'. createStore (Suc 0) counter_program (Function (UserFn 0)) Undefined Undefined
               = Some (Created s0)
     \<and> getState s0 = Returned (Number 0)
     \<and> dispatch_all (Suc 0) counter_program [inc, inc, inc] s0 = Some (Returned Undefined, s')
     \<and> getState s' = Returned (Number 3)"
proof -
  have pure: "\<forall>st a. code counter_program 0 [st, a] = Return (count st a)"
    by (simp add: counter_program_def arg_def)
  have pre: "\<not> is_function Undefined" by (simp add: is_function_def)
  have ok: "\<forall>a \<in> set [inc, inc, inc]. isPlainObject a \<and> property a ''type'' \<noteq> Undefined"
    by (simp add: inc_def)
  have "foldl count (count Undefined (init_action counter_program)) [inc, inc, inc] = Number 3"
    and "count Undefined (init_action counter_program) = Number 0"
    by (simp_all add: demo_defs)
  then show ?thesis
    using dispatch_sequence_is_fold [OF pure pre ok, of 0] by simp
qed



text \<open>
  C3, as amended. While the guard \<open>isDispatching\<close> is set (it is for the whole run of a
  reducer, see \<open>reducer_phase\<close>): \<open>getState\<close>, \<open>subscribe\<close> of a function, an unsubscribe
  closure that has not been used yet and \<open>dispatch\<close> of a well-formed action all throw, with
  an error of the kind ReentrancyError, and leave the store as it is. \<open>subscribe\<close> of
  something that is not a function throws the ConfigurationError instead, and an
  unsubscribe closure that has been used returns, with no effect.
\<close>

theorem reentrancy_guard:
  assumes "isDispatching s"
  shows "getState s = Raised GetStateWhileReducing
     \<and> subscribe (Function l) s = (Raised SubscribeWhileReducing, s)
     \<and> (h < length (closures s) \<and> snd (closures s ! h) \<longrightarrow>
           unsubscribe h s = (Raised UnsubscribeWhileReducing, s))
     \<and> (isPlainObject a \<and> property a ''type'' \<noteq> Undefined \<longrightarrow>
           dispatch (Suc n) P a s = Some (Raised ReducersMayNotDispatch, s, []))
     \<and> kind_of GetStateWhileReducing = ReentrancyError
     \<and> kind_of SubscribeWhileReducing = ReentrancyError
     \<and> kind_of UnsubscribeWhileReducing = ReentrancyError
     \<and> kind_of ReducersMayNotDispatch = ReentrancyError
     \<and> (\<not> is_function v \<longrightarrow> subscribe v s = (Raised ExpectedListenerFunction, s))
     \<and> (h < length (closures s) \<and> \<not> snd (closures s ! h) \<longrightarrow>
           unsubscribe h s = (Returned Undefined, s))"
  using assms
  by (simp add: getState_def subscribe_function_locked unsubscribe_locked unsubscribe_used
      dispatch_body_locked subscribe_not_function)

text \<open>
  A store with the guard set, a live closure (0) and a used one (1).
\<close>

theorem reentrancy_guard_witness:
  "getState ((demo_store (Number 0) 0 1 [[], [UserFn 3]] [(UserFn 3, True), (UserFn 3, False)])
             \<lparr>isDispatching := True\<rparr>) = Raised GetStateWhileReducing
   \<and> unsubscribe 0 ((demo_store (Number 0) 0 1 [[], [UserFn 3]] [(UserFn 3, True), (UserFn 3, False)])
             \<lparr>isDispatching := True\<rparr>)
      = (Raised UnsubscribeWhileReducing,
         (demo_store (Number 0) 0 1 [[], [UserFn 3]] [(UserFn 3, True), (UserFn 3, False)])
             \<lparr>isDispatching := True\<rparr>)
   \<and> unsubscribe 1 ((demo_store (Number 0) 0 1 [[], [UserFn 3]] [(UserFn 3, True), (UserFn 3, False)])
             \<lparr>isDispatching := True\<rparr>)
      = (Returned Undefined,
         (demo_store (Number 0) 0 1 [[], [UserFn 3]] [(UserFn 3, True), (UserFn 3, False)])
             \<lparr>isDispatching := True\<rparr>)
   \<and> dispatch (Suc 0) demo inc
        ((demo_store (Number 0) 0 1 [[], [UserFn 3]] [(UserFn 3, True), (UserFn 3, False)])
             \<lparr>isDispatching := True\<rparr>)
      = Some (Raised ReducersMayNotDispatch,
         (demo_store (Number 0) 0 1 [[], [UserFn 3]] [(UserFn 3, True), (UserFn 3, False)])
             \<lparr>isDispatching := True\<rparr>, [])
   \<and> subscribe Null
        ((demo_store (Number 0) 0 1 [[], [UserFn 3]] [(UserFn 3, True), (UserFn 3, False)])
             \<lparr>isDispatching := True\<rparr>)
      = (Raised ExpectedListenerFunction,
         (demo_store (Number 0) 0 1 [[], [UserFn 3]] [(UserFn 3, True), (UserFn 3, False)])
             \<lparr>isDispatching := True\<rparr>)"
proof -
  let ?s = "(demo_store (Number 0) 0 1 [[], [UserFn 3]] [(UserFn 3, True), (UserFn 3, False)])
             \<lparr>isDispatching := True\<rparr>"
  have g: "isDispatching ?s" by simp
  have h: "0 < length (closures ?s) \<and> snd (closures ?s ! 0)"
    "1 < length (closures ?s) \<and> \<not> snd (closures ?s ! 1)"
    "isPlainObject inc \<and> property inc ''type'' \<noteq> Undefined" "\<not> is_function Null"
    by (simp_all add: demo_store_def inc_def is_function_def)
  show ?thesis
    using reentrancy_guard [OF g, of "UserFn 3" 0 inc 0 demo Null]
      reentrancy_guard [OF g, of "UserFn 3" 1 inc 0 demo Null] h
    by simp
qed

text \<open>
  Counterexample to C3 as stated: a reducer that calls an unsubscribe closure which has been used
  before gets no exception. After \<open>subscribe\<close> and \<open>unsubscribe\<close>, dispatching \<open>PROBE\<close> makes
  the reducer of \<open>demo\<close> call that closure while it runs: the call returns, and \<open>dispatch\<close>
  returns with the state the reducer computed after the call. And \<open>subscribe(null)\<close> fails with
  an error that is not a ReentrancyError, guard set or not.
\<close>

theorem reentrancy_counterexample:
  "unsubscribe 0 (demo_store (Number 0) 0 1 [[], [UserFn 3]] [(UserFn 3, True)])
     = (Returned Undefined, demo_store (Number 0) 0 1 [[], []] [(UserFn 3, False)])
   \<and> dispatch (Suc 0) demo probe (demo_store (Number 0) 0 1 [[], []] [(UserFn 3, False)])
     = Some (Returned probe,
         demo_store (String ''unsubscribe returned'') 1 1 [[], []] [(UserFn 3, False)], [])
   \<and> run (dispatch 0 demo) demo (uncaught (Unsubscribe 0) (\<lambda>v. Return (String ''unsubscribe returned'')))
        ((demo_store (Number 0) 0 1 [[], []] [(UserFn 3, False)])\<lparr>isDispatching := True\<rparr>)
     = Some (Returned (String ''unsubscribe returned''),
         (demo_store (Number 0) 0 1 [[], []] [(UserFn 3, False)])\<lparr>isDispatching := True\<rparr>)
   \<and> subscribe Null ((demo_store (Number 0) 0 1 [[], []] [(UserFn 3, False)])\<lparr>isDispatching := True\<rparr>)
     = (Raised ExpectedListenerFunction,
        (demo_store (Number 0) 0 1 [[], []] [(UserFn 3, False)])\<lparr>isDispatching := True\<rparr>)
   \<and> kind_of ExpectedListenerFunction \<noteq> ReentrancyError"
  by (simp add: eval_defs demo_defs)

text \<open>
  C4. A \<open>dispatch\<close> that is called on an idle store and comes back, returning or throwing
  (from the reducer or from a listener), leaves the guard \<open>isDispatching\<close> released. And
  when the reducer throws \<open>e\<close> on a well-formed action, \<open>dispatch\<close> comes back (one more
  unit of fuel than the reducer used), throws that same \<open>e\<close> and has released the guard.
\<close>

theorem dispatch_releases_guard:
  "(\<not> isDispatching s \<and> dispatch n P a s = Some (r, s', ns) \<longrightarrow> \<not> isDispatching s')
   \<and> (isPlainObject a \<and> property a ''type'' \<noteq> Undefined \<and> \<not> isDispatching s
        \<and> invoke (dispatch n P) P (currentReducer s) [currentState s, a] (s\<lparr>isDispatching := True\<rparr>)
            = Some (Raised e, s1)
       \<longrightarrow> (\<exists>s2. dispatch (Suc n) P a s = Some (Raised e, s2, []) \<and> \<not> isDispatching s2))"
proof (intro conjI impI)
  assume "\<not> isDispatching s \<and> dispatch n P a s = Some (r, s', ns)"
  then show "\<not> isDispatching s'"
    using dispatch_evolves [of n P a s r s' ns] by (simp add: evolves_def)
next
  assume h: "isPlainObject a \<and> property a ''type'' \<noteq> Undefined \<and> \<not> isDispatching s
        \<and> invoke (dispatch n P) P (currentReducer s) [currentState s, a] (s\<lparr>isDispatching := True\<rparr>)
            = Some (Raised e, s1)"
  then have "dispatch (Suc n) P a s = Some (Raised e, s1\<lparr>isDispatching := False\<rparr>, [])"
    by (intro dispatch_reducer_throws) simp_all
  then show "\<exists>s2. dispatch (Suc n) P a s = Some (Raised e, s2, []) \<and> \<not> isDispatching s2"
    by simp
qed

text \<open>
  The reducer of \<open>demo\<close> throws on \<open>BOOM\<close>.
\<close>

theorem dispatch_releases_guard_witness:
  "dispatch (Suc 0) demo boom (demo_store (Number 0) 0 0 [[]] [])
     = Some (Raised (Thrown (String ''boom'')), demo_store (Number 0) 0 0 [[]] [], [])
   \<and> \<not> isDispatching (demo_store (Number 0) 0 0 [[]] [])
   \<and> (\<exists>s2. dispatch (Suc (Suc 0)) demo boom (demo_store (Number 0) 0 0 [[]] [])
              = Some (Raised (Thrown (String ''boom'')), s2, []) \<and> \<not> isDispatching s2)"
proof -
  let ?s = "demo_store (Number 0) 0 0 [[]] []"
  have d: "dispatch (Suc 0) demo boom ?s = Some (Raised (Thrown (String ''boom'')), ?s, [])"
    by (simp add: eval_defs demo_defs)
  have i: "isPlainObject boom \<and> property boom ''type'' \<noteq> Undefined \<and> \<not> isDispatching ?s
     \<and> invoke (dispatch (Suc 0) demo) demo (currentReducer ?s) [currentState ?s, boom]
          (?s\<lparr>isDispatching := True\<rparr>)
        = Some (Raised (Thrown (String ''boom'')), ?s\<lparr>isDispatching := True\<rparr>)"
    by (simp add: eval_defs demo_defs)
  show ?thesis
    using dispatch_releases_guard
      [of ?s "Suc 0" demo boom "Raised (Thrown (String ''boom''))" ?s "[]"
          "Thrown (String ''boom'')" "?s\<lparr>isDispatching := True\<rparr>"] d i
    by simp
qed



text \<open>
  C6. \<open>dispatch\<close> of something that is not a plain object (an array, a function, an
  instance of a class) throws the first InvalidActionError; \<open>dispatch\<close> of a plain object
  whose \<open>type\<close> is absent or \<open>undefined\<close> throws the second one. Either way the store is what
  it was, \<open>currentState\<close> included, and no listener is invoked.
\<close>

theorem dispatch_rejects_invalid_action:
  "(\<not> isPlainObject a \<longrightarrow>
      dispatch (Suc n) P a s = Some (Raised ActionsMustBePlainObjects, s, []))
   \<and> (isPlainObject a \<and> property a ''type'' = Undefined \<longrightarrow>
      dispatch (Suc n) P a s = Some (Raised UndefinedActionType, s, []))
   \<and> \<not> isPlainObject (Array xs) \<and> \<not> isPlainObject (Function f)
   \<and> \<not> isPlainObject (Object (ClassProto c) fs)
   \<and> (map_of fs ''type'' = None \<longrightarrow> property (Object p fs) ''type'' = Undefined)
   \<and> kind_of ActionsMustBePlainObjects = InvalidActionError
   \<and> kind_of UndefinedActionType = InvalidActionError
   \<and> ActionsMustBePlainObjects \<noteq> UndefinedActionType"
  by (simp add: dispatch_body_not_plain dispatch_body_no_type)

text \<open>
  An array and a plain object without \<open>type\<close>, dispatched to a store with one listener.
\<close>

theorem dispatch_rejects_invalid_action_witness:
  "dispatch (Suc 0) demo (Array [String ''INC''])
       (demo_store (Number 0) 0 1 [[], [UserFn 3]] [(UserFn 3, True)])
     = Some (Raised ActionsMustBePlainObjects,
         demo_store (Number 0) 0 1 [[], [UserFn 3]] [(UserFn 3, True)], [])
   \<and> dispatch (Suc 0) demo (Object ObjectProto [(''payload'', Number 1)])
       (demo_store (Number 0) 0 1 [[], [UserFn 3]] [(UserFn 3, True)])
     = Some (Raised UndefinedActionType,
         demo_store (Number 0) 0 1 [[], [UserFn 3]] [(UserFn 3, True)], [])"
proof -
  let ?s = "demo_store (Number 0) 0 1 [[], [UserFn 3]] [(UserFn 3, True)]"
  have h: "\<not> isPlainObject (Array [String ''INC''])"
    "isPlainObject (Object ObjectProto [(''payload'', Number 1)])
     \<and> property (Object ObjectProto [(''payload'', Number 1)]) ''type'' = Undefined"
    by simp_all
  show ?thesis
    using dispatch_rejects_invalid_action [of "Array [String ''INC'']" 0 demo ?s]
      dispatch_rejects_invalid_action [of "Object ObjectProto [(''payload'', Number 1)]" 0 demo ?s] h
    by simp
qed

text \<open>
  C7. \<open>compose()\<close> is the identity: \<open>compose()(x)\<close> is \<open>x\<close>. \<open>compose(f)\<close> is \<open>f\<close> itself.
  \<open>compose(f, g, h)(...args)\<close> is \<open>f(g(h(...args)))\<close>: \<open>h\<close> receives the whole argument
  list, \<open>g\<close> the single value \<open>h\<close> returned, \<open>f\<close> the single value \<open>g\<close> returned; an
  exception of an inner function propagates and the outer ones are not called.
\<close>

theorem compose_right_to_left:
  "compose [] [x] = Returned x
   \<and> compose [f] = f
   \<and> compose [f, g, h] args = call_with_result f (call_with_result g (h args))"
  by (simp add: identity_fn_def call_with_result_def split: outcome.splits)

text \<open>
  C8, as amended. \<open>currentListeners\<close> and \<open>nextListeners\<close> are the same reference right
  after \<open>createStore\<close>, and after every \<open>dispatch\<close> that returns without \<open>nextListeners\<close>
  having been replaced. They are not the same in every idle store: \<open>subscribe\<close>, and
  \<open>unsubscribe\<close> through a closure that has not been used, on an idle store make
  \<open>nextListeners\<close> a reference distinct from \<open>currentListeners\<close>, which stays the same reference
  to the same contents.
\<close>

theorem listener_arrays_aliasing:
  "(createStore n P reducer preloadedState enhancer = Some (Created s0) \<longrightarrow>
      currentListeners s0 = nextListeners s0 \<and> well_formed s0 \<and> \<not> isDispatching s0)
   \<and> (well_formed s \<and> dispatch n P a s = Some (Returned v, s', ns)
        \<and> nextListeners s' = nextListeners s \<longrightarrow>
      currentListeners s' = nextListeners s')
   \<and> (well_formed s \<and> \<not> isDispatching s \<longrightarrow>
      nextListeners (snd (subscribe (Function l) s)) \<noteq> currentListeners (snd (subscribe (Function l) s))
      \<and> currentListeners (snd (subscribe (Function l) s)) = currentListeners s
      \<and> array_at (snd (subscribe (Function l) s)) (currentListeners s) = array_at s (currentListeners s))
   \<and> (well_formed s \<and> \<not> isDispatching s \<and> h < length (closures s) \<and> snd (closures s ! h) \<longrightarrow>
      nextListeners (snd (unsubscribe h s)) \<noteq> currentListeners (snd (unsubscribe h s))
      \<and> currentListeners (snd (unsubscribe h s)) = currentListeners s
      \<and> array_at (snd (unsubscribe h s)) (currentListeners s) = array_at s (currentListeners s))"
proof (intro conjI impI)
  assume c: "createStore n P reducer preloadedState enhancer = Some (Created s0)"
  from createStore_dispatch [OF c] obtain r i v ns where
    d: "dispatch n P (init_action P)
          \<lparr>currentReducer = r, currentState = i, currentListeners = 0, nextListeners = 0,
           isDispatching = False, arrays = [[]], closures = []\<rparr> = Some (Returned v, s0, ns)"
    (is "dispatch n P _ ?i = _")
    by blast
  have wf: "well_formed ?i" by (simp add: well_formed_def)
  have e: "evolves ?i s0" using d by (rule dispatch_evolves)
  show "currentListeners s0 = nextListeners s0"
    using dispatch_empty_state [OF _ d] by (simp add: array_at_def)
  show "well_formed s0" using e wf by (simp add: evolves_def copy_on_write_def)
  show "\<not> isDispatching s0" using e by (simp add: evolves_def)
next
  assume "well_formed s \<and> dispatch n P a s = Some (Returned v, s', ns)
        \<and> nextListeners s' = nextListeners s"
  then show "currentListeners s' = nextListeners s'"
    using dispatch_realiases [of s n P a v s' ns] by simp
next
  assume a: "well_formed s \<and> \<not> isDispatching s"
  show "nextListeners (snd (subscribe (Function l) s)) \<noteq> currentListeners (snd (subscribe (Function l) s))"
    using a subscribe_staging(3) [of s l] by simp
  show c: "currentListeners (snd (subscribe (Function l) s)) = currentListeners s"
    using a subscribe_staging(4) [of s l] by simp
  show "array_at (snd (subscribe (Function l) s)) (currentListeners s) = array_at s (currentListeners s)"
    using a subscribe_staging(2) [of s l] c by simp
next
  assume a: "well_formed s \<and> \<not> isDispatching s \<and> h < length (closures s) \<and> snd (closures s ! h)"
  show "nextListeners (snd (unsubscribe h s)) \<noteq> currentListeners (snd (unsubscribe h s))"
    using a unsubscribe_staging(3) [of s h] by simp
  show c: "currentListeners (snd (unsubscribe h s)) = currentListeners s"
    using a unsubscribe_staging(4) [of s h] by simp
  show "array_at (snd (unsubscribe h s)) (currentListeners s) = array_at s (currentListeners s)"
    using a unsubscribe_staging(2) [of s h] c by simp
qed

text \<open>
  A fresh store of \<open>demo\<close>, a \<open>dispatch\<close> that re-aliases the references, and a
  \<open>subscribe\<close> and an \<open>unsubscribe\<close> that split them.
\<close>

theorem listener_arrays_aliasing_witness:
  "createStore (Suc 0) demo (Function (UserFn 0)) Undefined Undefined
     = Some (Created (demo_store (Number 0) 0 0 [[]] []))
   \<and> currentListeners (demo_store (Number 0) 0 0 [[]] []) = nextListeners (demo_store (Number 0) 0 0 [[]] [])
   \<and> dispatch (Suc (Suc 0)) demo inc (demo_store (Number 0) 0 1 [[], [UserFn 3]] [(UserFn 3, True)])
     = Some (Returned inc, demo_store (Number 1) 1 1 [[], [UserFn 3]] [(UserFn 3, True)], [UserFn 3])
   \<and> nextListeners (snd (subscribe (Function (UserFn 3)) (demo_store (Number 1) 1 1 [[], [UserFn 3]] [(UserFn 3, True)])))
      \<noteq> currentListeners (snd (subscribe (Function (UserFn 3)) (demo_store (Number 1) 1 1 [[], [UserFn 3]] [(UserFn 3, True)])))
   \<and> nextListeners (snd (unsubscribe 0 (demo_store (Number 1) 1 1 [[], [UserFn 3]] [(UserFn 3, True)])))
      \<noteq> currentListeners (snd (unsubscribe 0 (demo_store (Number 1) 1 1 [[], [UserFn 3]] [(UserFn 3, True)])))"
proof -
  let ?s0 = "demo_store (Number 0) 0 0 [[]] []"
  let ?s1 = "demo_store (Number 0) 0 1 [[], [UserFn 3]] [(UserFn 3, True)]"
  let ?s2 = "demo_store (Number 1) 1 1 [[], [UserFn 3]] [(UserFn 3, True)]"
  have c: "createStore (Suc 0) demo (Function (UserFn 0)) Undefined Undefined = Some (Created ?s0)"
    by (simp add: eval_defs demo_defs)
  have d: "well_formed ?s1 \<and> dispatch (Suc (Suc 0)) demo inc ?s1 = Some (Returned inc, ?s2, [UserFn 3])
           \<and> nextListeners ?s2 = nextListeners ?s1"
    by (simp add: eval_defs demo_defs)
  have w: "well_formed ?s2 \<and> \<not> isDispatching ?s2 \<and> 0 < length (closures ?s2) \<and> snd (closures ?s2 ! 0)"
    by (simp add: well_formed_def demo_store_def)
  show ?thesis
    using listener_arrays_aliasing
        [of "Suc 0" demo "Function (UserFn 0)" Undefined Undefined ?s0 ?s2 inc inc ?s2 "[]" "UserFn 3" 0]
      listener_arrays_aliasing
        [of "Suc (Suc 0)" demo "Function (UserFn 0)" Undefined Undefined ?s0 ?s1 inc inc ?s2 "[UserFn 3]" "UserFn 3" 0]
      c d w
    by simp
qed

text \<open>
  Counterexample to C8 as stated: after \<open>createStore\<close> and one \<open>subscribe\<close>, with no \<open>dispatch\<close> in
  between or after, the store is idle and \<open>currentListeners\<close> (array 0) is not
  \<open>nextListeners\<close> (array 1).
\<close>

theorem aliasing_counterexample:
  "createStore (Suc 0) demo (Function (UserFn 0)) Undefined Undefined
     = Some (Created (demo_store (Number 0) 0 0 [[]] []))
   \<and> subscribe (Function (UserFn 3)) (demo_store (Number 0) 0 0 [[]] [])
     = (Returned (Function (UnsubscribeFn 0)),
        demo_store (Number 0) 0 1 [[], [UserFn 3]] [(UserFn 3, True)])
   \<and> \<not> isDispatching (demo_store (Number 0) 0 1 [[], [UserFn 3]] [(UserFn 3, True)])
   \<and> currentListeners (demo_store (Number 0) 0 1 [[], [UserFn 3]] [(UserFn 3, True)])
      \<noteq> nextListeners (demo_store (Number 0) 0 1 [[], [UserFn 3]] [(UserFn 3, True)])"
  by (simp add: eval_defs demo_defs)

text \<open>
  C9, as amended. An unsubscribe closure that has been used returns with no effect, also
  while a \<open>dispatch\<close> is in progress. One that has not been used throws the ReentrancyError
  while a \<open>dispatch\<close> is in progress and leaves the store as it is; on an idle store it
  returns, and calling it again has no effect.
\<close>

theorem unsubscribe_idempotent:
  assumes "h < length (closures s)"
  shows "(\<not> snd (closures s ! h) \<longrightarrow> unsubscribe h s = (Returned Undefined, s))
     \<and> (snd (closures s ! h) \<and> isDispatching s \<longrightarrow>
           unsubscribe h s = (Raised UnsubscribeWhileReducing, s))
     \<and> (snd (closures s ! h) \<and> \<not> isDispatching s \<longrightarrow>
           fst (unsubscribe h s) = Returned Undefined
           \<and> unsubscribe h (snd (unsubscribe h s)) = (Returned Undefined, snd (unsubscribe h s)))"
proof (intro conjI impI)
  assume "\<not> snd (closures s ! h)"
  then show "unsubscribe h s = (Returned Undefined, s)" using assms by (simp add: unsubscribe_used)
next
  assume "snd (closures s ! h) \<and> isDispatching s"
  then show "unsubscribe h s = (Raised UnsubscribeWhileReducing, s)"
    using assms by (simp add: unsubscribe_locked)
next
  assume a: "snd (closures s ! h) \<and> \<not> isDispatching s"
  then show "fst (unsubscribe h s) = Returned Undefined"
    using assms by (simp add: unsubscribe_idle Let_def)
next
  assume a: "snd (closures s ! h) \<and> \<not> isDispatching s"
  have "closures (snd (unsubscribe h s)) = (closures s)[h := (fst (closures s ! h), False)]"
    using a assms by (simp add: unsubscribe_idle Let_def ensure_fields)
  then have "h < length (closures (snd (unsubscribe h s)))"
    and "\<not> snd (closures (snd (unsubscribe h s)) ! h)"
    using assms by simp_all
  then show "unsubscribe h (snd (unsubscribe h s)) = (Returned Undefined, snd (unsubscribe h s))"
    by (rule unsubscribe_used)
qed

text \<open>
  A first call, a second call, and a call with the guard set.
\<close>

theorem unsubscribe_idempotent_witness:
  "unsubscribe 0 (demo_store (Number 0) 0 1 [[], [UserFn 3]] [(UserFn 3, True)])
     = (Returned Undefined, demo_store (Number 0) 0 1 [[], []] [(UserFn 3, False)])
   \<and> unsubscribe 0 (demo_store (Number 0) 0 1 [[], []] [(UserFn 3, False)])
     = (Returned Undefined, demo_store (Number 0) 0 1 [[], []] [(UserFn 3, False)])
   \<and> unsubscribe 0 ((demo_store (Number 0) 0 1 [[], [UserFn 3]] [(UserFn 3, True)])\<lparr>isDispatching := True\<rparr>)
     = (Raised UnsubscribeWhileReducing,
        (demo_store (Number 0) 0 1 [[], [UserFn 3]] [(UserFn 3, True)])\<lparr>isDispatching := True\<rparr>)"
proof -
  let ?s = "demo_store (Number 0) 0 1 [[], [UserFn 3]] [(UserFn 3, True)]"
  let ?t = "?s\<lparr>isDispatching := True\<rparr>"
  have h: "0 < length (closures ?s)" "0 < length (closures ?t)"
    by (simp_all add: demo_store_def)
  have k: "snd (closures ?s ! 0) \<and> \<not> isDispatching ?s" "snd (closures ?t ! 0) \<and> isDispatching ?t"
    by (simp_all add: demo_store_def)
  have u: "unsubscribe 0 ?s = (Returned Undefined, demo_store (Number 0) 0 1 [[], []] [(UserFn 3, False)])"
    by (simp add: eval_defs demo_defs)
  show ?thesis
    using unsubscribe_idempotent [OF h(1)] unsubscribe_idempotent [OF h(2)] k u
    by simp
qed

text \<open>
  Counterexample to C9 as stated: with the guard set, a closure that has been used before returns
  \<open>undefined\<close> and throws nothing.
\<close>

theorem unsubscribe_reentrancy_counterexample:
  "isDispatching ((demo_store (Number 0) 0 1 [[], []] [(UserFn 3, False)])\<lparr>isDispatching := True\<rparr>)
   \<and> unsubscribe 0 ((demo_store (Number 0) 0 1 [[], []] [(UserFn 3, False)])\<lparr>isDispatching := True\<rparr>)
     = (Returned Undefined,
        (demo_store (Number 0) 0 1 [[], []] [(UserFn 3, False)])\<lparr>isDispatching := True\<rparr>)"
  by (simp add: eval_defs demo_defs)

text \<open>
  C10. When the reducer throws \<open>e\<close> inside \<open>dispatch\<close> of a well-formed action on an idle
  store, \<open>dispatch\<close> throws \<open>e\<close>, no listener is invoked, and \<open>currentState\<close>, both listener
  references, every listener array and every closure are what they were before the call.
\<close>

theorem failed_reducer_changes_nothing:
  assumes "isPlainObject a" and "property a ''type'' \<noteq> Undefined" and "\<not> isDispatching s"
    and "invoke (dispatch n P) P (currentReducer s) [currentState s, a] (s\<lparr>isDispatching := True\<rparr>)
           = Some (Raised e, s1)"
  shows "\<exists>s'. dispatch (Suc n) P a s = Some (Raised e, s', [])
           \<and> currentState s' = currentState s
           \<and> currentListeners s' = currentListeners s \<and> nextListeners s' = nextListeners s
           \<and> arrays s' = arrays s \<and> closures s' = closures s \<and> \<not> isDispatching s'"
  using dispatch_reducer_throws [OF assms] by (simp add: same_but_reducer_def)

text \<open>
  \<open>BOOM\<close> on a store of \<open>demo\<close> with state 5 and one listener.
\<close>

theorem failed_reducer_changes_nothing_witness:
  "\<exists>s'. dispatch (Suc (Suc 0)) demo boom
           (demo_store (Number 5) 0 1 [[], [UserFn 3]] [(UserFn 3, True)])
         = Some (Raised (Thrown (String ''boom'')), s', [])
       \<and> currentState s' = Number 5
       \<and> currentListeners s' = 0 \<and> nextListeners s' = 1
       \<and> arrays s' = [[], [UserFn 3]] \<and> closures s' = [(UserFn 3, True)] \<and> \<not> isDispatching s'"
proof -
  let ?s = "demo_store (Number 5) 0 1 [[], [UserFn 3]] [(UserFn 3, True)]"
  have a: "isPlainObject boom" "property boom ''type'' \<noteq> Undefined" "\<not> isDispatching ?s"
    by (simp_all add: demo_defs)
  have i: "invoke (dispatch (Suc 0) demo) demo (currentReducer ?s) [currentState ?s, boom]
          (?s\<lparr>isDispatching := True\<rparr>)
        = Some (Raised (Thrown (String ''boom'')), ?s\<lparr>isDispatching := True\<rparr>)"
    by (simp add: eval_defs demo_defs)
  show ?thesis
    using failed_reducer_changes_nothing [OF a i] by (simp add: demo_store_def)
qed

end
